theory Spec2Isabelle
  imports Main "HOL-Library.Word"
begin

unbundle bit_operations_syntax

section \<open>Data model of the block store (package ldb, block.go)\<close>

text \<open>
  Heights are Go \<open>int64\<close> values: 64-bit words whose \<open>+\<close> and \<open>-\<close> wrap around and
  which the code compares as signed numbers (\<open><s\<close>). A \<open>btcwire.ShaHash\<close> is the Go
  array type \<open>[32]byte\<close>; it is modelled as a byte list, and the theorems that depend on
  the width carry \<open>length sha = HashSize\<close>, which the Go type guarantees of every value.
\<close>

type_synonym byte = "8 word"
type_synonym int64 = "64 word"
type_synonym ShaHash = "byte list"

definition HashSize :: nat where
  "HashSize = 32"

text \<open>The zero value of \<open>btcwire.ShaHash\<close> (\<open>btcwire.ShaHash{}\<close>, \<open>var sha btcwire.ShaHash\<close>).\<close>

definition zeroHash :: ShaHash where
  "zeroHash = replicate 32 0"

text \<open>
  Modelled from the spec: the key codec (\<open>shaBlkToKey\<close>, \<open>int64ToKey\<close>), whose code is
  not in block.go. The spec (4.1) requires two pure, deterministic, injective encodings
  that never overlap, so that one key space hosts both namespaces: a key is tagged with
  its namespace.
\<close>

datatype key = ShaKey ShaHash | BlkKey int64

definition shaBlkToKey :: "ShaHash \<Rightarrow> key" where
  "shaBlkToKey sha = ShaKey sha"

definition int64ToKey :: "int64 \<Rightarrow> key" where
  "int64ToKey keyint = BlkKey keyint"

text \<open>
  Errors. \<open>db.lDb.Get\<close> fails with the store's own errors: the key is absent
  (\<open>ErrNotFound\<close>) or the store itself failed (\<open>ErrIO\<close>). block.go adds the
  corruption error \<open>fmt.Errorf("Db Corrupt 0")\<close> and \<open>fmt.Errorf("Write Fail")\<close>.
  \<open>PrevShaMissing\<close> is the package's broken-chain error, which block.go names only in a
  commented-out block. The two run-time panics of the code (a slice expression out of
  range, \<open>make\<close> with a bad capacity) are results of the model as well.
\<close>

datatype store_error = ErrNotFound | ErrIO

datatype error =
    StoreErr store_error
  | DbCorrupt0
  | WriteFail
  | PrevShaMissing
  | PanicSliceBounds
  | PanicMakeslice

text \<open>
  The handle \<open>LevelDb\<close>: \<open>lDb\<close> is the committed key-value store, given by what
  \<open>Get\<close> returns for each key; \<open>lbatch\<close> is the pending write batch, in the order of
  the \<open>Put\<close> calls; the other four fields are the tip cache.
\<close>

record LevelDb =
  lDb :: "key \<Rightarrow> store_error + byte list"
  lbatch :: "(key \<times> byte list) list"
  lastBlkShaCached :: bool
  lastBlkSha :: ShaHash
  lastBlkIdx :: int64
  nextBlock :: int64

subsection \<open>Library functions the code calls\<close>

text \<open>
  \<open>binary.LittleEndian\<close> of the Go standard library: \<open>PutUint64\<close> writes the value's
  bytes from the least significant one, \<open>Uint64\<close> reads eight bytes back.
\<close>

definition PutUint64 :: "int64 \<Rightarrow> byte list" where
  "PutUint64 v =
     [ucast v, ucast (drop_bit 8 v), ucast (drop_bit 16 v), ucast (drop_bit 24 v),
      ucast (drop_bit 32 v), ucast (drop_bit 40 v), ucast (drop_bit 48 v),
      ucast (drop_bit 56 v)]"

definition Uint64 :: "byte list \<Rightarrow> int64" where
  "Uint64 b =
     ucast (b ! 0) OR push_bit 8 (ucast (b ! 1)) OR push_bit 16 (ucast (b ! 2))
       OR push_bit 24 (ucast (b ! 3)) OR push_bit 32 (ucast (b ! 4))
       OR push_bit 40 (ucast (b ! 5)) OR push_bit 48 (ucast (b ! 6))
       OR push_bit 56 (ucast (b ! 7))"

text \<open>
  \<open>binary.Write(&lw, binary.LittleEndian, blkHeight)\<close> into a \<open>bytes.Buffer\<close>: for an
  \<open>int64\<close> it always succeeds and yields the eight bytes.
\<close>

definition binary_Write :: "int64 \<Rightarrow> error + byte list" where
  "binary_Write v = Inr (PutUint64 v)"

text \<open>
  \<open>binary.Read(dr, binary.LittleEndian, &blkHeight)\<close> from a buffer over \<open>data\<close>: it
  reads exactly eight bytes and fails (\<open>EOF\<close>, \<open>ErrUnexpectedEOF\<close>) when fewer are
  there; bytes after the eighth are not looked at. \<open>None\<close> is the failure.
\<close>

definition binary_Read :: "byte list \<Rightarrow> int64 option" where
  "binary_Read data = (if length data < 8 then None else Some (Uint64 (take 8 data)))"

text \<open>
  \<open>sha.SetBytes(newHash)\<close> of btcwire: copies when the length is \<open>HashSize\<close>, otherwise
  it returns an error, which block.go ignores, and leaves the hash as it was.
\<close>

definition SetBytes :: "ShaHash \<Rightarrow> byte list \<Rightarrow> ShaHash" where
  "SetBytes hash newHash = (if length newHash \<noteq> HashSize then hash else newHash)"

text \<open>
  The slice expression \<open>blkVal[0:32]\<close>. Go bounds it by the capacity of \<open>blkVal\<close>, not by
  its length, and the result reads the backing array. The capacity of a slice that \<open>Get\<close>
  returns, and the bytes between its length and its capacity, are set by the store and
  the allocator, outside block.go; they are a parameter: \<open>spare n\<close> are the bytes of the
  backing array that follow a payload of \<open>n\<close> bytes. The expression panics when payload
  and spare bytes together are fewer than 32.
\<close>

definition slice_0_32 :: "(nat \<Rightarrow> byte list) \<Rightarrow> byte list \<Rightarrow> error + byte list" where
  "slice_0_32 spare blkVal =
     (let backing = blkVal @ spare (length blkVal) in
      if length backing < 32 then Inl PanicSliceBounds else Inr (take 32 backing))"

text \<open>
  The slice expression \<open>blkVal[32:]\<close>, which Go bounds by the length: it panics on fewer
  than 32 bytes, whatever the capacity.
\<close>

definition slice_32_end :: "byte list \<Rightarrow> error + byte list" where
  "slice_32_end blkVal =
     (if length blkVal < 32 then Inl PanicSliceBounds else Inr (drop 32 blkVal))"

text \<open>
  Modelled from the spec: the pending batch (\<open>db.lBatch().Put\<close>), whose accessor is not
  in block.go. \<open>stage_put\<close> of the spec (4.2) appends to the pending atomic batch rather
  than writing.
\<close>

definition batch_Put :: "LevelDb \<Rightarrow> key \<Rightarrow> byte list \<Rightarrow> LevelDb" where
  "batch_Put db k v = db\<lparr>lbatch := lbatch db @ [(k, v)]\<rparr>"

text \<open>
  Modelled from the spec: the commit of the pending batch, which is triggered outside
  block.go. The spec (4.2, 6) has every staged write applied together, atomically; the
  writes are applied in the order they were staged and the batch is left empty.
\<close>

definition apply_put :: "(key \<Rightarrow> store_error + byte list) \<Rightarrow> key \<times> byte list \<Rightarrow> (key \<Rightarrow> store_error + byte list)" where
  "apply_put s kv = s(fst kv := Inr (snd kv))"

definition commit :: "LevelDb \<Rightarrow> LevelDb" where
  "commit db = db\<lparr>lDb := foldl apply_put (lDb db) (lbatch db), lbatch := []\<rparr>"

text \<open>
  Modelled from the spec: the store before any insert, whose constructor is not in
  block.go. Nothing is stored or staged, the tip height is the sentinel \<open>-1\<close> and the
  next-assignable height is at its initial value 0 (spec 3, 4.3, 4.4).
\<close>

definition emptyDb :: LevelDb where
  "emptyDb = \<lparr>lDb = (\<lambda>k. Inl ErrNotFound), lbatch = [], lastBlkShaCached = False,
     lastBlkSha = zeroHash, lastBlkIdx = - 1, nextBlock = 0\<rparr>"

subsection \<open>block.go\<close>

definition getBlkLoc :: "LevelDb \<Rightarrow> ShaHash \<Rightarrow> error + int64" where
  "getBlkLoc db sha =
     (let key = shaBlkToKey sha in
      case lDb db key of
        Inl err \<Rightarrow> Inl (StoreErr err)
      | Inr data \<Rightarrow>
          (case binary_Read data of
             None \<Rightarrow> Inl DbCorrupt0
           | Some blkHeight \<Rightarrow> Inr blkHeight))"

definition getBlkByHeight :: "(nat \<Rightarrow> byte list) \<Rightarrow> LevelDb \<Rightarrow> int64 \<Rightarrow> error + (ShaHash \<times> byte list)" where
  "getBlkByHeight spare db blkHeight =
     (let key = int64ToKey blkHeight in
      case lDb db key of
        Inl err \<Rightarrow> Inl (StoreErr err)
      | Inr blkVal \<Rightarrow>
          (case slice_0_32 spare blkVal of
             Inl p \<Rightarrow> Inl p
           | Inr pre \<Rightarrow>
               (case slice_32_end blkVal of
                  Inl p \<Rightarrow> Inl p
                | Inr blockdata \<Rightarrow> Inr (SetBytes zeroHash pre, blockdata))))"

definition getBlk :: "(nat \<Rightarrow> byte list) \<Rightarrow> LevelDb \<Rightarrow> ShaHash \<Rightarrow> error + (int64 \<times> byte list)" where
  "getBlk spare db sha =
     (case getBlkLoc db sha of
        Inl err \<Rightarrow> Inl err
      | Inr blkHeight \<Rightarrow>
          (case getBlkByHeight spare db blkHeight of
             Inl err \<Rightarrow> Inl err
           | Inr r \<Rightarrow> Inr (blkHeight, snd r)))"

definition setBlk :: "LevelDb \<Rightarrow> ShaHash \<Rightarrow> int64 \<Rightarrow> byte list \<Rightarrow> LevelDb \<times> error option" where
  "setBlk db sha blkHeight buf =
     (case binary_Write blkHeight of
        Inl err \<Rightarrow> (db, Some WriteFail)
      | Inr lw \<Rightarrow>
          (let shaKey = shaBlkToKey sha;
               blkKey = int64ToKey blkHeight;
               blkVal = sha @ buf;
               db1 = batch_Put db shaKey lw;
               db2 = batch_Put db1 blkKey blkVal
           in (db2, None)))"

text \<open>
  \<open>insertBlockData\<close> returns the handle after the call and either the error or the
  height assigned. \<open>insert_at\<close> is the part of its body after the predecessor lookup.
\<close>

definition insert_at :: "LevelDb \<Rightarrow> ShaHash \<Rightarrow> int64 \<Rightarrow> byte list \<Rightarrow> LevelDb \<times> (error + int64)" where
  "insert_at db sha oBlkHeight buf =
     (let blkHeight = oBlkHeight + 1 in
      case setBlk db sha blkHeight buf of
        (db', Some err) \<Rightarrow> (db', Inl err)
      | (db', None) \<Rightarrow>
          (db'\<lparr>lastBlkShaCached := True, lastBlkSha := sha, lastBlkIdx := blkHeight,
               nextBlock := blkHeight + 1\<rparr>, Inr blkHeight))"

definition insertBlockData :: "LevelDb \<Rightarrow> ShaHash \<Rightarrow> ShaHash \<Rightarrow> byte list \<Rightarrow> LevelDb \<times> (error + int64)" where
  "insertBlockData db sha prevSha buf =
     (case getBlkLoc db prevSha of
        Inl err \<Rightarrow>
          (if nextBlock db \<noteq> 0 then (db, Inl err) else insert_at db sha (- 1) buf)
      | Inr oBlkHeight \<Rightarrow> insert_at db sha oBlkHeight buf)"

definition fetchSha :: "(nat \<Rightarrow> byte list) \<Rightarrow> LevelDb \<Rightarrow> ShaHash \<Rightarrow> error + (byte list \<times> int64)" where
  "fetchSha spare db sha =
     (case getBlk spare db sha of
        Inl err \<Rightarrow> Inl err
      | Inr r \<Rightarrow> Inr (snd r, fst r))"

definition blkExistsSha :: "LevelDb \<Rightarrow> ShaHash \<Rightarrow> bool" where
  "blkExistsSha db sha = (case getBlkLoc db sha of Inl err \<Rightarrow> False | Inr h \<Rightarrow> True)"

definition ExistsSha :: "LevelDb \<Rightarrow> ShaHash \<Rightarrow> bool" where
  "ExistsSha db sha = blkExistsSha db sha"

definition FetchBlockHeightBySha :: "LevelDb \<Rightarrow> ShaHash \<Rightarrow> error + int64" where
  "FetchBlockHeightBySha db sha = getBlkLoc db sha"

definition fetchBlockShaByHeight :: "(nat \<Rightarrow> byte list) \<Rightarrow> LevelDb \<Rightarrow> int64 \<Rightarrow> error + ShaHash" where
  "fetchBlockShaByHeight spare db height =
     (let key = int64ToKey height in
      case lDb db key of
        Inl err \<Rightarrow> Inl (StoreErr err)
      | Inr blkVal \<Rightarrow>
          (case slice_0_32 spare blkVal of
             Inl p \<Rightarrow> Inl p
           | Inr pre \<Rightarrow> Inr (SetBytes zeroHash pre)))"

definition FetchBlockShaByHeight :: "(nat \<Rightarrow> byte list) \<Rightarrow> LevelDb \<Rightarrow> int64 \<Rightarrow> error + ShaHash" where
  "FetchBlockShaByHeight spare db height = fetchBlockShaByHeight spare db height"

definition NewestSha :: "LevelDb \<Rightarrow> error + (ShaHash \<times> int64)" where
  "NewestSha db =
     (if lastBlkIdx db = - 1 then Inr (zeroHash, - 1)
      else Inr (lastBlkSha db, lastBlkIdx db))"





subsection \<open>Sequences of operations\<close>

text \<open>
  The operations of the layer that block.go implements, and the commit of the pending
  batch. Only \<open>insertBlockData\<close> and the commit change the handle; the fetch operations
  only call \<open>Get\<close>.
\<close>

datatype op =
    OpInsert ShaHash ShaHash "byte list"
  | OpCommit
  | OpExistsSha ShaHash
  | OpFetchSha ShaHash
  | OpFetchBlockHeightBySha ShaHash
  | OpFetchBlockShaByHeight int64
  | OpFetchHeightRange int64 int64
  | OpNewestSha

fun step :: "LevelDb \<Rightarrow> op \<Rightarrow> LevelDb" where
  "step db (OpInsert sha prevSha buf) = fst (insertBlockData db sha prevSha buf)"
| "step db OpCommit = commit db"
| "step db (OpExistsSha sha) = db"
| "step db (OpFetchSha sha) = db"
| "step db (OpFetchBlockHeightBySha sha) = db"
| "step db (OpFetchBlockShaByHeight height) = db"
| "step db (OpFetchHeightRange startHeight endHeight) = db"
| "step db OpNewestSha = db"

definition run :: "LevelDb \<Rightarrow> op list \<Rightarrow> LevelDb" where
  "run db ops = foldl step db ops"

text \<open>Every hash an operation passes in is a \<open>[32]byte\<close>.\<close>

fun wf_op :: "op \<Rightarrow> bool" where
  "wf_op (OpInsert sha prevSha buf) = (length sha = HashSize \<and> length prevSha = HashSize)"
| "wf_op (OpExistsSha sha) = (length sha = HashSize)"
| "wf_op (OpFetchSha sha) = (length sha = HashSize)"
| "wf_op (OpFetchBlockHeightBySha sha) = (length sha = HashSize)"
| "wf_op _ = True"

subsection \<open>What the range operation is specified to return\<close>







subsection \<open>Concrete hashes and stores\<close>

definition shaA :: ShaHash where
  "shaA = replicate 32 1"

definition shaB :: ShaHash where
  "shaB = replicate 32 2"

definition shaC :: ShaHash where
  "shaC = replicate 32 3"

text \<open>The store after the genesis block \<open>shaA\<close> was inserted into the empty store and committed.\<close>

definition db1 :: LevelDb where
  "db1 = commit (fst (insertBlockData emptyDb shaA zeroHash [1]))"

text \<open>A store whose entries are damaged: a truncated height payload and a truncated hash payload.\<close>

definition db_damaged :: LevelDb where
  "db_damaged = emptyDb\<lparr>lDb := (lDb emptyDb)(BlkKey 5 := Inr [1, 2, 3], ShaKey shaA := Inr [1, 2, 3],
     ShaKey shaB := Inl ErrIO)\<rparr>"



text \<open>
  The spare bytes used in the concrete cases: the capacity is the length rounded up to a
  multiple of 8 bytes, as the size classes of the Go allocator are up to 32 bytes, and
  the spare bytes are zero. A payload of 3 bytes has capacity 8, one of 25 to 31 bytes
  has capacity 32.
\<close>

definition spare_go :: "nat \<Rightarrow> byte list" where
  "spare_go n = replicate (8 * ((n + 7) div 8) - n) 0"

text \<open>A store that fails to read the entry of height 6.\<close>

definition db_io :: LevelDb where
  "db_io = emptyDb\<lparr>lDb := (lDb emptyDb)(BlkKey 6 := Inl ErrIO)\<rparr>"

subsection \<open>Invariant of the stores reached from the empty store\<close>

text \<open>
  \<open>entry_puts\<close> are the two writes \<open>setBlk\<close> stages for one block. \<open>store_inv n\<close> holds of
  a committed store in which every hash-index payload is the encoding of a height below
  \<open>n\<close> that has a height-index entry, every height-index payload holds at least a hash,
  whose hash-index entry exists, and \<open>Get\<close> fails only for absent keys. \<open>batch_inv n\<close>
  holds of a pending batch made of whole pairs of writes.
\<close>

definition entry_puts :: "ShaHash \<times> int64 \<times> byte list \<Rightarrow> (key \<times> byte list) list" where
  "entry_puts e = (case e of (sha, h, buf) \<Rightarrow> [(ShaKey sha, PutUint64 h), (BlkKey h, sha @ buf)])"

definition entry_ok :: "nat \<Rightarrow> ShaHash \<times> int64 \<times> byte list \<Rightarrow> bool" where
  "entry_ok n e = (case e of (sha, h, buf) \<Rightarrow> length sha = 32 \<and> unat h < n)"

definition store_inv :: "nat \<Rightarrow> (key \<Rightarrow> store_error + byte list) \<Rightarrow> bool" where
  "store_inv n s \<longleftrightarrow>
     (\<forall>sha v. s (ShaKey sha) = Inr v \<longrightarrow>
        length sha = 32 \<and> (\<exists>h. v = PutUint64 h \<and> unat h < n \<and> (\<exists>w. s (BlkKey h) = Inr w)))
     \<and> (\<forall>h w. s (BlkKey h) = Inr w \<longrightarrow> 32 \<le> length w \<and> (\<exists>v. s (ShaKey (take 32 w)) = Inr v))
     \<and> (\<forall>k e. s k = Inl e \<longrightarrow> e = ErrNotFound)"

definition batch_inv :: "nat \<Rightarrow> (key \<times> byte list) list \<Rightarrow> bool" where
  "batch_inv n xs \<longleftrightarrow> (\<exists>es. xs = concat (map entry_puts es) \<and> list_all (entry_ok n) es)"

definition db_inv :: "nat \<Rightarrow> LevelDb \<Rightarrow> bool" where
  "db_inv n db \<longleftrightarrow> store_inv n (lDb db) \<and> batch_inv n (lbatch db)"

text \<open>
  \<open>inserted db op\<close> is the hash and height of the block that \<open>op\<close> inserts into \<open>db\<close>, if
  \<open>op\<close> is an insert that succeeds; \<open>last_inserted\<close> follows a sequence of operations and
  keeps the most recent one.
\<close>

definition inserted :: "LevelDb \<Rightarrow> op \<Rightarrow> (ShaHash \<times> int64) option" where
  "inserted db op =
     (case op of
        OpInsert sha prevSha buf \<Rightarrow>
          (case snd (insertBlockData db sha prevSha buf) of
             Inl err \<Rightarrow> None
           | Inr h \<Rightarrow> Some (sha, h))
      | _ \<Rightarrow> None)"

fun last_inserted :: "LevelDb \<Rightarrow> op list \<Rightarrow> (ShaHash \<times> int64) option \<Rightarrow> (ShaHash \<times> int64) option" where
  "last_inserted db [] t = t"
| "last_inserted db (op # ops) t =
     last_inserted (step db op) ops (case inserted db op of None \<Rightarrow> t | Some r \<Rightarrow> Some r)"

definition tip_inv :: "nat \<Rightarrow> LevelDb \<Rightarrow> (ShaHash \<times> int64) option \<Rightarrow> bool" where
  "tip_inv n db t =
     (case t of
        None \<Rightarrow> lastBlkIdx db = - 1
      | Some r \<Rightarrow> lastBlkSha db = fst r \<and> lastBlkIdx db = snd r \<and> unat (snd r) < n)"

text \<open>
  A chain of two blocks built from the empty store, and the same chain followed by a
  second block \<open>shaC\<close> that names the genesis block \<open>shaA\<close> as its predecessor.
\<close>

definition ops_chain :: "op list" where
  "ops_chain = [OpInsert shaA zeroHash [1], OpCommit, OpInsert shaB shaA [2], OpCommit]"

definition ops_fork :: "op list" where
  "ops_fork = ops_chain @ [OpInsert shaC shaA [3], OpCommit]"

definition db2 :: LevelDb where
  "db2 = run emptyDb ops_chain"

definition db3 :: LevelDb where
  "db3 = run emptyDb ops_fork"

text \<open>The store \<open>db2\<close> read through a \<open>Get\<close> that fails for the entry of height 0.\<close>

definition db2_io :: LevelDb where
  "db2_io = db2\<lparr>lDb := (lDb db2)(BlkKey 0 := Inl ErrIO)\<rparr>"

text \<open>\<open>is_insert\<close> holds of the insert operations.\<close>

fun is_insert :: "op \<Rightarrow> bool" where
  "is_insert (OpInsert sha prevSha buf) = True"
| "is_insert _ = False"

section \<open>Properties\<close>

subsection \<open>Helper facts\<close>

lemma Uint64_PutUint64: "Uint64 (PutUint64 v) = v"
proof (rule bit_word_eqI)
  fix n :: nat
  assume n: "n < LENGTH(64)"
  then consider "n < 8" | "8 \<le> n \<and> n < 16" | "16 \<le> n \<and> n < 24" | "24 \<le> n \<and> n < 32"
    | "32 \<le> n \<and> n < 40" | "40 \<le> n \<and> n < 48" | "48 \<le> n \<and> n < 56" | "56 \<le> n \<and> n < 64"
    by fastforce
  then show "bit (Uint64 (PutUint64 v)) n = bit v n"
    unfolding Uint64_def PutUint64_def
    by cases (simp_all add: bit_simps less_diff_conv2 cong: conj_cong)
qed

lemma length_PutUint64: "length (PutUint64 v) = 8"
  by (simp add: PutUint64_def)

lemma binary_Read_PutUint64: "binary_Read (PutUint64 v) = Some v"
  by (simp add: binary_Read_def length_PutUint64 Uint64_PutUint64)

lemma binary_Read_None: "binary_Read data = None \<longleftrightarrow> length data < 8"
  by (simp add: binary_Read_def)

lemma getBlkLoc_cases:
  "getBlkLoc db sha =
     (case lDb db (ShaKey sha) of
        Inl err \<Rightarrow> Inl (StoreErr err)
      | Inr data \<Rightarrow> (if length data < 8 then Inl DbCorrupt0 else Inr (Uint64 (take 8 data))))"
  by (simp add: getBlkLoc_def shaBlkToKey_def binary_Read_def split: sum.splits)

lemma setBlk_eq:
  "setBlk db sha h buf =
     (db\<lparr>lbatch := lbatch db @ [(ShaKey sha, PutUint64 h), (BlkKey h, sha @ buf)]\<rparr>, None)"
  by (simp add: setBlk_def binary_Write_def batch_Put_def shaBlkToKey_def int64ToKey_def)

lemma insert_at_eq:
  "insert_at db sha oh buf =
     (db\<lparr>lbatch := lbatch db @ [(ShaKey sha, PutUint64 (oh + 1)), (BlkKey (oh + 1), sha @ buf)],
         lastBlkShaCached := True, lastBlkSha := sha, lastBlkIdx := oh + 1,
         nextBlock := oh + 1 + 1\<rparr>, Inr (oh + 1))"
  by (simp add: insert_at_def setBlk_eq Let_def)

lemma insertBlockData_error_unchanged:
  "snd (insertBlockData db sha prevSha buf) = Inl e \<Longrightarrow> fst (insertBlockData db sha prevSha buf) = db"
  by (auto simp: insertBlockData_def insert_at_eq split: sum.splits if_splits)

lemma insertBlockData_Inr:
  assumes "insertBlockData db sha prevSha buf = (db', Inr h)"
  shows "db' = db\<lparr>lbatch := lbatch db @ [(ShaKey sha, PutUint64 h), (BlkKey h, sha @ buf)],
         lastBlkShaCached := True, lastBlkSha := sha, lastBlkIdx := h, nextBlock := h + 1\<rparr>"
  using assms by (auto simp: insertBlockData_def insert_at_eq split: sum.splits if_splits)

lemma sha_lengths:
  "length shaA = 32" "length shaB = 32" "length shaC = 32" "length zeroHash = 32"
  by (simp_all add: shaA_def shaB_def shaC_def zeroHash_def)

lemma sha_distinct:
  "shaA \<noteq> shaB" "shaA \<noteq> shaC" "shaB \<noteq> shaC" "shaB \<noteq> shaA" "shaC \<noteq> shaA" "shaC \<noteq> shaB"
  "zeroHash \<noteq> shaA" "zeroHash \<noteq> shaB" "zeroHash \<noteq> shaC"
  "shaA \<noteq> zeroHash" "shaB \<noteq> zeroHash" "shaC \<noteq> zeroHash"
  by (simp_all add: shaA_def shaB_def shaC_def zeroHash_def replicate_eq_replicate)

lemma genesis_insert:
  "insertBlockData emptyDb shaA zeroHash [1] =
     (emptyDb\<lparr>lbatch := [(ShaKey shaA, PutUint64 0), (BlkKey 0, shaA @ [1])],
        lastBlkShaCached := True, lastBlkSha := shaA, lastBlkIdx := 0, nextBlock := 1\<rparr>, Inr 0)"
  by (simp add: insertBlockData_def getBlkLoc_cases insert_at_eq emptyDb_def)

lemma db1_eq:
  "db1 = \<lparr>lDb = (\<lambda>k. Inl ErrNotFound)(ShaKey shaA := Inr (PutUint64 0), BlkKey 0 := Inr (shaA @ [1])),
     lbatch = [], lastBlkShaCached = True, lastBlkSha = shaA, lastBlkIdx = 0, nextBlock = 1\<rparr>"
  unfolding db1_def genesis_insert
  by (simp add: commit_def apply_put_def emptyDb_def)

subsection \<open>Insert with an unknown predecessor\<close>

text \<open>
  C1 (amended). For every store state, an insert whose declared predecessor hash has no
  hash-index entry succeeds, and then returns height 0, if and only if the chain is
  empty (\<open>nextBlock\<close> is 0); on a non-empty chain it fails, and the error it returns is
  the not-found error of the predecessor lookup itself: \<open>insertBlockData\<close> has no
  broken-chain error of its own.
\<close>

theorem C1_insert_unknown_predecessor:
  assumes "lDb db (shaBlkToKey prevSha) = Inl ErrNotFound"
  shows "(snd (insertBlockData db sha prevSha buf) = Inr 0 \<longleftrightarrow> nextBlock db = 0)
       \<and> ((\<exists>h. snd (insertBlockData db sha prevSha buf) = Inr h) \<longleftrightarrow> nextBlock db = 0)
       \<and> (nextBlock db \<noteq> 0 \<longrightarrow>
            snd (insertBlockData db sha prevSha buf) = Inl (StoreErr ErrNotFound))"
  using assms by (simp add: insertBlockData_def getBlkLoc_def insert_at_eq)

theorem C1_insert_unknown_predecessor_witness:
  "lDb emptyDb (shaBlkToKey zeroHash) = Inl ErrNotFound
   \<and> nextBlock emptyDb = 0
   \<and> snd (insertBlockData emptyDb shaA zeroHash [1]) = Inr 0
   \<and> lDb db1 (shaBlkToKey shaC) = Inl ErrNotFound
   \<and> nextBlock db1 \<noteq> 0
   \<and> snd (insertBlockData db1 shaB shaC [2]) = Inl (StoreErr ErrNotFound)"
proof -
  have e: "lDb emptyDb (shaBlkToKey zeroHash) = Inl ErrNotFound"
    by (simp add: emptyDb_def)
  have n: "lDb db1 (shaBlkToKey shaC) = Inl ErrNotFound"
    by (simp add: db1_eq shaBlkToKey_def sha_distinct)
  show ?thesis
    using C1_insert_unknown_predecessor [OF e, of shaA "[1]"]
      C1_insert_unknown_predecessor [OF n, of shaB "[2]"] e n
    by (simp add: emptyDb_def db1_eq)
qed

text \<open>
  The claim as stated names a broken-chain error: on the store holding the genesis block,
  an insert with the unknown predecessor \<open>shaC\<close> fails with the lookup's not-found error.
\<close>

theorem C1_counterexample:
  "lDb db1 (shaBlkToKey shaC) = Inl ErrNotFound
   \<and> nextBlock db1 \<noteq> 0
   \<and> snd (insertBlockData db1 shaB shaC [2]) = Inl (StoreErr ErrNotFound)
   \<and> snd (insertBlockData db1 shaB shaC [2]) \<noteq> Inl PrevShaMissing"
  by (simp add: db1_eq shaBlkToKey_def sha_distinct insertBlockData_def getBlkLoc_cases)

text \<open>
  C2. Whenever insert fails because the declared predecessor hash is absent while the
  chain is non-empty, it returns before any write is staged: the handle it leaves behind
  is the handle it was given, so the pending batch, the committed entries of both
  namespaces, the tip cache and the next-assignable height are unchanged.
\<close>

theorem C2_failed_insert_unchanged:
  assumes "lDb db (shaBlkToKey prevSha) = Inl ErrNotFound" and "nextBlock db \<noteq> 0"
  shows "insertBlockData db sha prevSha buf = (db, Inl (StoreErr ErrNotFound))"
  using assms by (simp add: insertBlockData_def getBlkLoc_def)

theorem C2_failed_insert_unchanged_witness:
  "lDb db1 (shaBlkToKey shaC) = Inl ErrNotFound \<and> nextBlock db1 \<noteq> 0
   \<and> insertBlockData db1 shaB shaC [2] = (db1, Inl (StoreErr ErrNotFound))"
proof -
  have n: "lDb db1 (shaBlkToKey shaC) = Inl ErrNotFound"
    by (simp add: db1_eq shaBlkToKey_def sha_distinct)
  have z: "nextBlock db1 \<noteq> 0"
    by (simp add: db1_eq)
  show ?thesis
    using C2_failed_insert_unchanged [OF n z, of shaB "[2]"] n z by simp
qed

subsection \<open>Round trip\<close>

text \<open>
  C3 (amended). For every successful insert of \<open>(sha, buf)\<close> that returned height \<open>h\<close>,
  once the pending batch has been committed, and with no insert in between,
  \<open>fetchSha sha\<close> returns exactly the bytes \<open>buf\<close> together with the height \<open>h\<close>.
\<close>

theorem C3_roundtrip_after_commit:
  assumes "insertBlockData db sha prevSha buf = (db', Inr h)" and "length sha = HashSize"
  shows "fetchSha spare (commit db') sha = Inr (buf, h)"
proof -
  let ?s = "foldl apply_put (lDb db) (lbatch db)"
  have l: "lDb (commit db') = ?s(ShaKey sha := Inr (PutUint64 h), BlkKey h := Inr (sha @ buf))"
    using insertBlockData_Inr [OF assms(1)] by (simp add: commit_def apply_put_def)
  have g: "getBlkLoc (commit db') sha = Inr h"
    by (simp add: getBlkLoc_def shaBlkToKey_def l binary_Read_PutUint64)
  have b: "getBlkByHeight spare (commit db') h = Inr (sha, buf)"
    using assms(2)
    by (simp add: getBlkByHeight_def int64ToKey_def l slice_0_32_def slice_32_end_def
        SetBytes_def HashSize_def)
  show ?thesis by (simp add: fetchSha_def getBlk_def g b)
qed

theorem C3_roundtrip_after_commit_witness:
  "insertBlockData emptyDb shaA zeroHash [1] = (fst (insertBlockData emptyDb shaA zeroHash [1]), Inr 0)
   \<and> length shaA = HashSize
   \<and> fetchSha spare_go db1 shaA = Inr ([1], 0)"
proof -
  have i: "insertBlockData emptyDb shaA zeroHash [1] =
      (fst (insertBlockData emptyDb shaA zeroHash [1]), Inr 0)"
    by (simp add: genesis_insert)
  have l: "length shaA = HashSize"
    by (simp add: sha_lengths HashSize_def)
  show ?thesis
    using C3_roundtrip_after_commit [OF i l, of spare_go] i l by (simp add: db1_def)
qed

text \<open>
  Without the commit the claim fails: directly after the genesis insert into the empty
  store, the two writes are only staged and \<open>fetchSha\<close> reads the committed store.
\<close>

theorem C3_counterexample:
  "snd (insertBlockData emptyDb shaA zeroHash [1]) = Inr 0
   \<and> fetchSha spare_go (fst (insertBlockData emptyDb shaA zeroHash [1])) shaA =
       Inl (StoreErr ErrNotFound)"
  unfolding genesis_insert
  by (simp add: fetchSha_def getBlk_def getBlkLoc_cases emptyDb_def)

subsection \<open>Corruption and existence\<close>

text \<open>
  C6. For every hash, \<open>FetchBlockHeightBySha\<close> fails with the corruption error exactly
  when the hash-index entry exists and its payload cannot be decoded as the 8-byte
  little-endian integer (\<open>binary.Read\<close> fails, which it does on fewer than 8 bytes);
  an absent key fails with the not-found error, and only an absent key does; the two
  errors are different values.
\<close>

theorem C6_corruption_not_notfound:
  "(FetchBlockHeightBySha db sha = Inl DbCorrupt0
      \<longleftrightarrow> (\<exists>data. lDb db (shaBlkToKey sha) = Inr data \<and> binary_Read data = None))
   \<and> (lDb db (shaBlkToKey sha) = Inl ErrNotFound
      \<longleftrightarrow> FetchBlockHeightBySha db sha = Inl (StoreErr ErrNotFound))
   \<and> DbCorrupt0 \<noteq> StoreErr ErrNotFound"
  by (auto simp: FetchBlockHeightBySha_def getBlkLoc_def split: sum.splits option.splits)

theorem C6_corruption_not_notfound_witness:
  "lDb db_damaged (shaBlkToKey shaA) = Inr [1, 2, 3] \<and> binary_Read [1, 2, 3] = None
   \<and> FetchBlockHeightBySha db_damaged shaA = Inl DbCorrupt0
   \<and> lDb db_damaged (shaBlkToKey shaC) = Inl ErrNotFound
   \<and> FetchBlockHeightBySha db_damaged shaC = Inl (StoreErr ErrNotFound)"
proof -
  have a: "lDb db_damaged (shaBlkToKey shaA) = Inr [1, 2, 3]"
    by (simp add: db_damaged_def shaBlkToKey_def sha_distinct)
  have r: "binary_Read [1, 2, 3] = None"
    by (simp add: binary_Read_def)
  have c: "lDb db_damaged (shaBlkToKey shaC) = Inl ErrNotFound"
    by (simp add: db_damaged_def shaBlkToKey_def sha_distinct emptyDb_def)
  show ?thesis
    using C6_corruption_not_notfound [of db_damaged shaA]
      C6_corruption_not_notfound [of db_damaged shaC] a r c
    by simp
qed

text \<open>
  C10. For every hash, \<open>ExistsSha\<close> returns true exactly when the hash-index lookup
  \<open>getBlkLoc\<close> succeeds, and false for every failure of it: the key is absent, the
  payload is corrupt, or the store failed. Its result is a boolean; no error reaches the
  caller.
\<close>

theorem C10_exists_collapses_errors:
  "(ExistsSha db sha \<longleftrightarrow> (\<exists>h. getBlkLoc db sha = Inr h))
   \<and> (lDb db (shaBlkToKey sha) = Inl ErrNotFound \<longrightarrow> \<not> ExistsSha db sha)
   \<and> (lDb db (shaBlkToKey sha) = Inl ErrIO \<longrightarrow> \<not> ExistsSha db sha)
   \<and> (getBlkLoc db sha = Inl DbCorrupt0 \<longrightarrow> \<not> ExistsSha db sha)
   \<and> (\<forall>e. getBlkLoc db sha = Inl e \<longrightarrow> \<not> ExistsSha db sha)"
  by (auto simp: ExistsSha_def blkExistsSha_def getBlkLoc_def split: sum.splits option.splits)

theorem C10_exists_collapses_errors_witness:
  "getBlkLoc db1 shaA = Inr 0 \<and> ExistsSha db1 shaA
   \<and> lDb db_damaged (shaBlkToKey shaC) = Inl ErrNotFound \<and> \<not> ExistsSha db_damaged shaC
   \<and> lDb db_damaged (shaBlkToKey shaB) = Inl ErrIO \<and> \<not> ExistsSha db_damaged shaB
   \<and> getBlkLoc db_damaged shaA = Inl DbCorrupt0 \<and> \<not> ExistsSha db_damaged shaA"
proof -
  have g: "getBlkLoc db1 shaA = Inr 0"
    by (simp add: getBlkLoc_def shaBlkToKey_def db1_eq binary_Read_PutUint64)
  have c: "lDb db_damaged (shaBlkToKey shaC) = Inl ErrNotFound"
    by (simp add: db_damaged_def shaBlkToKey_def sha_distinct emptyDb_def)
  have b: "lDb db_damaged (shaBlkToKey shaB) = Inl ErrIO"
    by (simp add: db_damaged_def shaBlkToKey_def sha_distinct)
  have a: "getBlkLoc db_damaged shaA = Inl DbCorrupt0"
    by (simp add: getBlkLoc_cases db_damaged_def sha_distinct)
  show ?thesis
    using C10_exists_collapses_errors [of db1 shaA] C10_exists_collapses_errors [of db_damaged shaC]
      C10_exists_collapses_errors [of db_damaged shaB] C10_exists_collapses_errors [of db_damaged shaA]
      g c b a
    by (auto simp: getBlkLoc_def)
qed

subsection \<open>Range fetch\<close>












subsection \<open>The invariant holds of every store reached from the empty store\<close>

lemma store_inv_mono: "store_inv n s \<Longrightarrow> n \<le> m \<Longrightarrow> store_inv m s"
  unfolding store_inv_def by (meson less_le_trans)

lemma entry_ok_mono: "entry_ok n e \<Longrightarrow> n \<le> m \<Longrightarrow> entry_ok m e"
  by (auto simp: entry_ok_def)

lemma batch_inv_mono: "batch_inv n xs \<Longrightarrow> n \<le> m \<Longrightarrow> batch_inv m xs"
  unfolding batch_inv_def list_all_iff by (blast intro: entry_ok_mono)

lemma db_inv_mono: "db_inv n db \<Longrightarrow> n \<le> m \<Longrightarrow> db_inv m db"
  by (auto simp: db_inv_def intro: store_inv_mono batch_inv_mono)

lemma store_inv_put2:
  assumes "store_inv n s" and "length sha = 32" and "unat h < n"
  shows "store_inv n (s(ShaKey sha := Inr (PutUint64 h), BlkKey h := Inr (sha @ buf)))"
proof -
  let ?s = "s(ShaKey sha := Inr (PutUint64 h), BlkKey h := Inr (sha @ buf))"
  from assms(1) have
    a: "\<And>sha v. s (ShaKey sha) = Inr v \<Longrightarrow>
          length sha = 32 \<and> (\<exists>h. v = PutUint64 h \<and> unat h < n \<and> (\<exists>w. s (BlkKey h) = Inr w))"
    and b: "\<And>h w. s (BlkKey h) = Inr w \<Longrightarrow> 32 \<le> length w \<and> (\<exists>v. s (ShaKey (take 32 w)) = Inr v)"
    and c: "\<And>k e. s k = Inl e \<Longrightarrow> e = ErrNotFound"
    unfolding store_inv_def by blast+
  have blk: "\<exists>w. ?s (BlkKey h') = Inr w" if "\<exists>w. s (BlkKey h') = Inr w" for h'
    using that by simp
  have shk: "\<exists>v. ?s (ShaKey x) = Inr v" if "\<exists>v. s (ShaKey x) = Inr v" for x
    using that by simp
  have 1: "length x = 32 \<and> (\<exists>h'. v = PutUint64 h' \<and> unat h' < n \<and> (\<exists>w. ?s (BlkKey h') = Inr w))"
    if "?s (ShaKey x) = Inr v" for x v
  proof (cases "x = sha")
    case True
    with that have "v = PutUint64 h" by simp
    moreover have "\<exists>w. ?s (BlkKey h) = Inr w" by simp
    ultimately show ?thesis using True assms(2,3) by blast
  next
    case False
    with that have "s (ShaKey x) = Inr v" by simp
    from a [OF this] obtain h' where "length x = 32" "v = PutUint64 h'" "unat h' < n"
      "\<exists>w. s (BlkKey h') = Inr w" by blast
    with blk [of h'] show ?thesis by blast
  qed
  have 2: "32 \<le> length w \<and> (\<exists>v. ?s (ShaKey (take 32 w)) = Inr v)"
    if "?s (BlkKey h') = Inr w" for h' w
  proof (cases "h' = h")
    case True
    with that have w: "w = sha @ buf" by simp
    with assms(2) have "32 \<le> length w" "take 32 w = sha" by simp_all
    moreover have "\<exists>v. ?s (ShaKey sha) = Inr v" by simp
    ultimately show ?thesis by simp
  next
    case False
    with that have "s (BlkKey h') = Inr w" by simp
    from b [OF this] shk [of "take 32 w"] show ?thesis by blast
  qed
  have 3: "e = ErrNotFound" if "?s k = Inl e" for k e
    using that c [of k e] by (simp split: if_splits)
  show ?thesis
    unfolding store_inv_def using 1 2 3 by blast
qed

lemma store_inv_foldl:
  "store_inv n s \<Longrightarrow> list_all (entry_ok n) es \<Longrightarrow>
   store_inv n (foldl apply_put s (concat (map entry_puts es)))"
proof (induction es arbitrary: s)
  case Nil
  then show ?case by simp
next
  case (Cons e es)
  obtain sha h buf where e: "e = (sha, h, buf)" by (cases e) auto
  from Cons.prems e have ok: "length sha = 32" "unat h < n"
    by (simp_all add: entry_ok_def)
  from Cons.prems have rest: "list_all (entry_ok n) es"
    by simp
  have "store_inv n (s(ShaKey sha := Inr (PutUint64 h), BlkKey h := Inr (sha @ buf)))"
    by (rule store_inv_put2 [OF Cons.prems(1) ok])
  moreover have "entry_puts (sha, h, buf) = [(ShaKey sha, PutUint64 h), (BlkKey h, sha @ buf)]"
    by (simp add: entry_puts_def)
  moreover have "apply_put (apply_put s (ShaKey sha, PutUint64 h)) (BlkKey h, sha @ buf) =
      s(ShaKey sha := Inr (PutUint64 h), BlkKey h := Inr (sha @ buf))"
    by (simp add: apply_put_def)
  ultimately show ?case
    using Cons.IH [OF _ rest] by (simp add: e)
qed

lemma batch_inv_Nil: "batch_inv n []"
proof -
  have "[] = concat (map entry_puts []) \<and> list_all (entry_ok n) []" by simp
  then show ?thesis unfolding batch_inv_def by blast
qed

lemma db_inv_commit:
  assumes "db_inv n db"
  shows "db_inv n (commit db)"
proof -
  from assms obtain es where s: "store_inv n (lDb db)"
    and es: "lbatch db = concat (map entry_puts es)" "list_all (entry_ok n) es"
    unfolding db_inv_def batch_inv_def by blast
  have "store_inv n (foldl apply_put (lDb db) (lbatch db))"
    unfolding es(1) by (rule store_inv_foldl [OF s es(2)])
  then show ?thesis by (simp add: db_inv_def commit_def batch_inv_Nil)
qed

lemma db_inv_empty: "db_inv 0 emptyDb"
  by (simp add: db_inv_def store_inv_def batch_inv_Nil emptyDb_def)

lemma unat_succ_le: "unat ((h::int64) + 1) \<le> unat h + 1"
  by (simp add: unat_word_ariths)

lemma getBlkLoc_bound:
  assumes "store_inv n (lDb db)" and "getBlkLoc db sha = Inr h"
  shows "unat h < n"
proof -
  from assms(2) obtain v where v: "lDb db (ShaKey sha) = Inr v" and r: "binary_Read v = Some h"
    by (auto simp: getBlkLoc_def shaBlkToKey_def split: sum.splits option.splits)
  from assms(1) v obtain h' where "v = PutUint64 h'" "unat h' < n"
    unfolding store_inv_def by blast
  with r show ?thesis by (simp add: binary_Read_PutUint64)
qed

lemma insert_height_bound:
  assumes "store_inv n (lDb db)" and "insertBlockData db sha prevSha buf = (db', Inr h)"
  shows "unat h < Suc n"
proof (cases "getBlkLoc db prevSha")
  case (Inl err)
  with assms(2) have "h = 0"
    by (auto simp: insertBlockData_def insert_at_eq split: if_splits)
  then show ?thesis by simp
next
  case (Inr oh)
  with assms(2) have h: "h = oh + 1"
    by (auto simp: insertBlockData_def insert_at_eq)
  from getBlkLoc_bound [OF assms(1) Inr] unat_succ_le [of oh] h show ?thesis by simp
qed

lemma batch_inv_snoc:
  assumes "batch_inv n xs" and "length sha = 32" and "unat h < n"
  shows "batch_inv n (xs @ [(ShaKey sha, PutUint64 h), (BlkKey h, sha @ buf)])"
proof -
  from assms(1) obtain es where es: "xs = concat (map entry_puts es)" "list_all (entry_ok n) es"
    unfolding batch_inv_def by blast
  have "xs @ [(ShaKey sha, PutUint64 h), (BlkKey h, sha @ buf)] =
      concat (map entry_puts (es @ [(sha, h, buf)]))"
    by (simp add: es(1)) (simp add: entry_puts_def)
  moreover have "list_all (entry_ok n) (es @ [(sha, h, buf)])"
    using es assms(2,3) by (simp add: entry_ok_def)
  ultimately show ?thesis unfolding batch_inv_def by blast
qed

lemma db_inv_insert:
  assumes "db_inv n db" and "length sha = 32"
  shows "db_inv (Suc n) (fst (insertBlockData db sha prevSha buf))"
proof (cases "snd (insertBlockData db sha prevSha buf)")
  case (Inl e)
  then have "fst (insertBlockData db sha prevSha buf) = db"
    by (rule insertBlockData_error_unchanged)
  with assms(1) show ?thesis by (simp add: db_inv_mono)
next
  case (Inr h)
  then have i: "insertBlockData db sha prevSha buf = (fst (insertBlockData db sha prevSha buf), Inr h)"
    by (simp add: prod_eq_iff)
  from assms(1) have s: "store_inv n (lDb db)" and b: "batch_inv n (lbatch db)"
    by (simp_all add: db_inv_def)
  have hb: "unat h < Suc n" by (rule insert_height_bound [OF s i])
  have "batch_inv (Suc n) (lbatch db @ [(ShaKey sha, PutUint64 h), (BlkKey h, sha @ buf)])"
    by (rule batch_inv_snoc [OF batch_inv_mono [OF b] assms(2) hb]) simp
  moreover have "store_inv (Suc n) (lDb db)" by (rule store_inv_mono [OF s]) simp
  ultimately show ?thesis
    by (subst insertBlockData_Inr [OF i]) (simp add: db_inv_def)
qed

lemma db_inv_step: "db_inv n db \<Longrightarrow> wf_op op \<Longrightarrow> db_inv (Suc n) (step db op)"
  by (cases op) (simp_all add: db_inv_insert db_inv_commit db_inv_mono HashSize_def)

lemma db_inv_run: "db_inv n db \<Longrightarrow> list_all wf_op ops \<Longrightarrow> db_inv (n + length ops) (run db ops)"
proof (induction ops arbitrary: n db)
  case Nil
  then show ?case by (simp add: run_def)
next
  case (Cons op ops)
  from Cons.prems have "db_inv (Suc n) (step db op)" by (simp add: db_inv_step)
  from Cons.IH [OF this] Cons.prems(2) show ?case by (simp add: run_def)
qed

lemma reachable_inv: "list_all wf_op ops \<Longrightarrow> db_inv (length ops) (run emptyDb ops)"
  using db_inv_run [OF db_inv_empty, of ops] by simp

subsection \<open>The concrete chain and fork\<close>

lemma insert_commit_eq:
  assumes "lbatch db = []" and "getBlkLoc db prevSha = Inr oh"
  shows "commit (fst (insertBlockData db sha prevSha buf)) =
     db\<lparr>lDb := (lDb db)(ShaKey sha := Inr (PutUint64 (oh + 1)), BlkKey (oh + 1) := Inr (sha @ buf)),
        lastBlkShaCached := True, lastBlkSha := sha, lastBlkIdx := oh + 1,
        nextBlock := oh + 1 + 1\<rparr>"
  using assms by (simp add: insertBlockData_def insert_at_eq commit_def apply_put_def)

lemma run_Cons: "run db (op # ops) = run (step db op) ops"
  by (simp add: run_def)

lemma run_Nil: "run db [] = db"
  by (simp add: run_def)

lemma run_append: "run db (xs @ ys) = run (run db xs) ys"
  by (simp add: run_def)

lemma db2_eq:
  "db2 = \<lparr>lDb = (\<lambda>k. Inl ErrNotFound)(ShaKey shaA := Inr (PutUint64 0), BlkKey 0 := Inr (shaA @ [1]),
       ShaKey shaB := Inr (PutUint64 1), BlkKey 1 := Inr (shaB @ [2])),
     lbatch = [], lastBlkShaCached = True, lastBlkSha = shaB, lastBlkIdx = 1, nextBlock = 2\<rparr>"
proof -
  have a: "run emptyDb [OpInsert shaA zeroHash [1], OpCommit] = db1"
    by (simp add: run_def db1_def)
  have g: "getBlkLoc db1 shaA = Inr 0"
    by (simp add: getBlkLoc_def shaBlkToKey_def db1_eq binary_Read_PutUint64)
  have b: "lbatch db1 = []"
    by (simp add: db1_eq)
  have "db2 = commit (fst (insertBlockData db1 shaB shaA [2]))"
    using a by (simp add: db2_def ops_chain_def run_Cons run_Nil)
  also have "\<dots> = db1\<lparr>lDb := (lDb db1)(ShaKey shaB := Inr (PutUint64 (0 + 1)), BlkKey (0 + 1) := Inr (shaB @ [2])),
        lastBlkShaCached := True, lastBlkSha := shaB, lastBlkIdx := 0 + 1,
        nextBlock := 0 + 1 + 1\<rparr>"
    by (rule insert_commit_eq [OF b g])
  finally show ?thesis by (simp add: db1_eq)
qed

lemma db3_eq:
  "db3 = \<lparr>lDb = (\<lambda>k. Inl ErrNotFound)(ShaKey shaA := Inr (PutUint64 0), BlkKey 0 := Inr (shaA @ [1]),
       ShaKey shaB := Inr (PutUint64 1), BlkKey 1 := Inr (shaB @ [2]),
       ShaKey shaC := Inr (PutUint64 1), BlkKey 1 := Inr (shaC @ [3])),
     lbatch = [], lastBlkShaCached = True, lastBlkSha = shaC, lastBlkIdx = 1, nextBlock = 2\<rparr>"
proof -
  have g: "getBlkLoc db2 shaA = Inr 0"
    by (simp add: getBlkLoc_def shaBlkToKey_def db2_eq binary_Read_PutUint64 sha_distinct)
  have b: "lbatch db2 = []"
    by (simp add: db2_eq)
  have "db3 = commit (fst (insertBlockData db2 shaC shaA [3]))"
    by (simp add: db3_def ops_fork_def run_append run_Cons run_Nil db2_def [symmetric])
  also have "\<dots> = db2\<lparr>lDb := (lDb db2)(ShaKey shaC := Inr (PutUint64 (0 + 1)), BlkKey (0 + 1) := Inr (shaC @ [3])),
        lastBlkShaCached := True, lastBlkSha := shaC, lastBlkIdx := 0 + 1,
        nextBlock := 0 + 1 + 1\<rparr>"
    by (rule insert_commit_eq [OF b g])
  finally show ?thesis by (simp add: db2_eq)
qed

lemma wf_ops_chain: "list_all wf_op ops_chain"
  by (simp add: ops_chain_def HashSize_def sha_lengths)

subsection \<open>Hash by height\<close>

lemma fetchBlockShaByHeight_cases:
  "fetchBlockShaByHeight spare db height =
     (case lDb db (BlkKey height) of
        Inl err \<Rightarrow> Inl (StoreErr err)
      | Inr blkVal \<Rightarrow>
          (if length blkVal + length (spare (length blkVal)) < 32 then Inl PanicSliceBounds
           else Inr (take 32 (blkVal @ spare (length blkVal)))))"
proof (cases "lDb db (BlkKey height)")
  case (Inl err)
  then show ?thesis
    by (simp add: fetchBlockShaByHeight_def int64ToKey_def)
next
  case (Inr blkVal)
  let ?backing = "blkVal @ spare (length blkVal)"
  show ?thesis
  proof (cases "length ?backing < 32")
    case True
    with Inr show ?thesis
      by (simp add: fetchBlockShaByHeight_def int64ToKey_def slice_0_32_def)
  next
    case False
    then have "length (take 32 ?backing) = HashSize"
      by (simp add: HashSize_def)
    then have "SetBytes zeroHash (take 32 ?backing) = take 32 ?backing"
      by (simp only: SetBytes_def) simp
    with Inr False show ?thesis
      by (simp add: fetchBlockShaByHeight_def int64ToKey_def slice_0_32_def Let_def)
  qed
qed

lemma fetchBlockShaByHeight_long:
  "lDb db (BlkKey height) = Inr blkVal \<Longrightarrow> 32 \<le> length blkVal \<Longrightarrow>
   fetchBlockShaByHeight spare db height = Inr (take 32 blkVal)"
  by (simp add: fetchBlockShaByHeight_cases)

text \<open>
  C9 (amended). For every height: when \<open>Get\<close> fails, \<open>FetchBlockShaByHeight\<close> fails with
  the store's error unchanged, which is the not-found error when the height's key is
  absent; when a payload of at least 32 bytes is stored under the key, the result is the
  hash made of its first 32 bytes. Every payload that insert stages is a 32-byte hash
  followed by the record. So on every handle whose stored payloads are those of a store
  reached from the empty store by operations of this layer and commits, whatever \<open>Get\<close>
  fails with, the operation returns a hash, the not-found error or another error of the
  store itself, and never panics on the slice expression.
\<close>

theorem C9_hash_by_height:
  "(\<forall>e. lDb db (int64ToKey height) = Inl e
      \<longrightarrow> FetchBlockShaByHeight spare db height = Inl (StoreErr e))
   \<and> (\<forall>blkVal. lDb db (int64ToKey height) = Inr blkVal \<and> 32 \<le> length blkVal
      \<longrightarrow> FetchBlockShaByHeight spare db height = Inr (take 32 blkVal))
   \<and> (list_all wf_op ops \<and> (\<forall>k v. lDb db k = Inr v \<longrightarrow> lDb (run emptyDb ops) k = Inr v)
      \<longrightarrow> FetchBlockShaByHeight spare db height \<noteq> Inl PanicSliceBounds
        \<and> ((\<exists>e. FetchBlockShaByHeight spare db height = Inl (StoreErr e))
           \<or> (\<exists>sha. FetchBlockShaByHeight spare db height = Inr sha \<and> length sha = HashSize)))"
proof (intro conjI impI allI)
  fix e
  assume "lDb db (int64ToKey height) = Inl e"
  then show "FetchBlockShaByHeight spare db height = Inl (StoreErr e)"
    by (simp add: FetchBlockShaByHeight_def fetchBlockShaByHeight_cases int64ToKey_def)
next
  fix blkVal
  assume "lDb db (int64ToKey height) = Inr blkVal \<and> 32 \<le> length blkVal"
  then show "FetchBlockShaByHeight spare db height = Inr (take 32 blkVal)"
    by (simp add: FetchBlockShaByHeight_def fetchBlockShaByHeight_long int64ToKey_def)
next
  assume a: "list_all wf_op ops \<and> (\<forall>k v. lDb db k = Inr v \<longrightarrow> lDb (run emptyDb ops) k = Inr v)"
  then have "store_inv (length ops) (lDb (run emptyDb ops))"
    using reachable_inv [of ops] by (simp add: db_inv_def)
  then have b: "\<And>h w. lDb (run emptyDb ops) (BlkKey h) = Inr w \<Longrightarrow> 32 \<le> length w"
    unfolding store_inv_def by blast
  have r: "(\<exists>e. FetchBlockShaByHeight spare db height = Inl (StoreErr e))
      \<or> (\<exists>sha. FetchBlockShaByHeight spare db height = Inr sha \<and> length sha = HashSize)"
  proof (cases "lDb db (BlkKey height)")
    case (Inl e)
    then show ?thesis
      by (simp add: FetchBlockShaByHeight_def fetchBlockShaByHeight_cases)
  next
    case (Inr w)
    with a have "lDb (run emptyDb ops) (BlkKey height) = Inr w" by blast
    from b [OF this] have "32 \<le> length w" .
    with Inr show ?thesis
      by (simp add: FetchBlockShaByHeight_def fetchBlockShaByHeight_long HashSize_def)
  qed
  from r show "FetchBlockShaByHeight spare db height \<noteq> Inl PanicSliceBounds"
    by auto
  from r show "(\<exists>e. FetchBlockShaByHeight spare db height = Inl (StoreErr e))
      \<or> (\<exists>sha. FetchBlockShaByHeight spare db height = Inr sha \<and> length sha = HashSize)" .
qed

text \<open>
  \<open>db2_io\<close> holds the payloads of the chain \<open>ops_chain\<close>, but its \<open>Get\<close> fails for the
  entry of height 0.
\<close>

theorem C9_hash_by_height_witness:
  "lDb db1 (int64ToKey 7) = Inl ErrNotFound
   \<and> FetchBlockShaByHeight spare_go db1 7 = Inl (StoreErr ErrNotFound)
   \<and> lDb db1 (int64ToKey 0) = Inr (shaA @ [1]) \<and> 32 \<le> length (shaA @ [1])
   \<and> FetchBlockShaByHeight spare_go db1 0 = Inr shaA
   \<and> list_all wf_op ops_chain
   \<and> lDb db2_io = (lDb (run emptyDb ops_chain))(int64ToKey 0 := Inl ErrIO)
   \<and> lDb db2_io (int64ToKey 0) = Inl ErrIO
   \<and> FetchBlockShaByHeight spare_go db2_io 0 = Inl (StoreErr ErrIO)
   \<and> FetchBlockShaByHeight spare_go db2_io 1 = Inr shaB
   \<and> FetchBlockShaByHeight spare_go db2_io 1 \<noteq> Inl PanicSliceBounds"
proof -
  have a: "lDb db1 (int64ToKey 7) = Inl ErrNotFound"
    by (simp add: db1_eq int64ToKey_def)
  have b: "lDb db1 (int64ToKey 0) = Inr (shaA @ [1]) \<and> 32 \<le> length (shaA @ [1])"
    by (simp add: db1_eq int64ToKey_def sha_lengths)
  have g: "\<forall>k v. lDb db2_io k = Inr v \<longrightarrow> lDb (run emptyDb ops_chain) k = Inr v"
    by (simp add: db2_io_def db2_def [symmetric])
  have i: "lDb db2_io (int64ToKey 0) = Inl ErrIO"
    by (simp add: db2_io_def int64ToKey_def)
  have v: "lDb db2_io (int64ToKey 1) = Inr (shaB @ [2]) \<and> 32 \<le> length (shaB @ [2])"
    by (simp add: db2_io_def db2_eq int64ToKey_def sha_lengths)
  have 1: "FetchBlockShaByHeight spare_go db1 7 = Inl (StoreErr ErrNotFound)"
    using C9_hash_by_height [of db1 7 spare_go ops_chain] a by blast
  have 2: "FetchBlockShaByHeight spare_go db1 0 = Inr (take 32 (shaA @ [1]))"
    using C9_hash_by_height [of db1 0 spare_go ops_chain] b by blast
  have 3: "FetchBlockShaByHeight spare_go db2_io 0 = Inl (StoreErr ErrIO)"
    using C9_hash_by_height [of db2_io 0 spare_go ops_chain] i by blast
  have 4: "FetchBlockShaByHeight spare_go db2_io 1 = Inr (take 32 (shaB @ [2]))"
    using C9_hash_by_height [of db2_io 1 spare_go ops_chain] v by blast
  have 5: "FetchBlockShaByHeight spare_go db2_io 1 \<noteq> Inl PanicSliceBounds"
    using C9_hash_by_height [of db2_io 1 spare_go ops_chain] wf_ops_chain g by blast
  have u: "lDb db2_io = (lDb (run emptyDb ops_chain))(int64ToKey 0 := Inl ErrIO)"
    by (simp add: db2_io_def db2_def int64ToKey_def)
  show ?thesis
    using a b u i 1 2 3 4 5 wf_ops_chain by (simp add: sha_lengths)
qed

text \<open>
  The claim as stated fails in two ways. A payload of 3 bytes under a height key has
  capacity 8 with \<open>spare_go\<close>, and the slice expression \<open>blkVal[0:32]\<close> is out of range.
  A failure of the store is returned as it is, which is neither a hash nor the not-found
  error.
\<close>

theorem C9_counterexample:
  "lDb db_damaged (int64ToKey 5) = Inr [1, 2, 3]
   \<and> length ([1, 2, 3] @ spare_go 3) = 8
   \<and> FetchBlockShaByHeight spare_go db_damaged 5 = Inl PanicSliceBounds
   \<and> lDb db_io (int64ToKey 6) = Inl ErrIO
   \<and> FetchBlockShaByHeight spare_go db_io 6 = Inl (StoreErr ErrIO)"
  by (simp add: FetchBlockShaByHeight_def fetchBlockShaByHeight_cases db_damaged_def db_io_def
      int64ToKey_def spare_go_def)

subsection \<open>Pairing of the two index entries\<close>

text \<open>
  C4 (amended). Every successful insert stages exactly two writes into the same pending
  batch, the hash-index entry mapping the hash to the height and the height-index entry
  mapping the height to the hash followed by the record, and the commit of that batch
  stores both. In every store reached from the empty store by operations of this layer
  and commits, every hash-index entry decodes to a height that has a height-index entry,
  and the hash prefix of every height-index entry has a hash-index entry; the entry found
  is the one written last under that key, which need not come from the same insert.
\<close>

theorem C4_pairing:
  "(insertBlockData db sha prevSha buf = (db', Inr h)
      \<longrightarrow> lbatch db' = lbatch db @ [(shaBlkToKey sha, PutUint64 h), (int64ToKey h, sha @ buf)]
        \<and> lDb (commit db') (shaBlkToKey sha) = Inr (PutUint64 h)
        \<and> lDb (commit db') (int64ToKey h) = Inr (sha @ buf))
   \<and> (list_all wf_op ops
      \<longrightarrow> (\<forall>s v. lDb (run emptyDb ops) (shaBlkToKey s) = Inr v
             \<longrightarrow> (\<exists>g w. binary_Read v = Some g \<and> lDb (run emptyDb ops) (int64ToKey g) = Inr w))
        \<and> (\<forall>g w. lDb (run emptyDb ops) (int64ToKey g) = Inr w
             \<longrightarrow> (\<exists>v. lDb (run emptyDb ops) (shaBlkToKey (take 32 w)) = Inr v)))"
proof (intro conjI impI allI)
  assume i: "insertBlockData db sha prevSha buf = (db', Inr h)"
  note e = insertBlockData_Inr [OF i]
  show "lbatch db' = lbatch db @ [(shaBlkToKey sha, PutUint64 h), (int64ToKey h, sha @ buf)]"
    by (subst e) (simp add: shaBlkToKey_def int64ToKey_def)
  show "lDb (commit db') (shaBlkToKey sha) = Inr (PutUint64 h)"
    by (subst e) (simp add: commit_def apply_put_def shaBlkToKey_def)
  show "lDb (commit db') (int64ToKey h) = Inr (sha @ buf)"
    by (subst e) (simp add: commit_def apply_put_def int64ToKey_def)
next
  fix s v
  assume "list_all wf_op ops" and v: "lDb (run emptyDb ops) (shaBlkToKey s) = Inr v"
  then have "store_inv (length ops) (lDb (run emptyDb ops))"
    using reachable_inv [of ops] by (simp add: db_inv_def)
  with v obtain g w where "v = PutUint64 g" "lDb (run emptyDb ops) (BlkKey g) = Inr w"
    unfolding store_inv_def shaBlkToKey_def by blast
  then show "\<exists>g w. binary_Read v = Some g \<and> lDb (run emptyDb ops) (int64ToKey g) = Inr w"
    by (auto simp: binary_Read_PutUint64 int64ToKey_def)
next
  fix g w
  assume "list_all wf_op ops" and w: "lDb (run emptyDb ops) (int64ToKey g) = Inr w"
  then have "store_inv (length ops) (lDb (run emptyDb ops))"
    using reachable_inv [of ops] by (simp add: db_inv_def)
  with w show "\<exists>v. lDb (run emptyDb ops) (shaBlkToKey (take 32 w)) = Inr v"
    unfolding store_inv_def shaBlkToKey_def int64ToKey_def by blast
qed

theorem C4_pairing_witness:
  "insertBlockData emptyDb shaA zeroHash [1] = (fst (insertBlockData emptyDb shaA zeroHash [1]), Inr 0)
   \<and> lbatch (fst (insertBlockData emptyDb shaA zeroHash [1])) =
       [(shaBlkToKey shaA, PutUint64 0), (int64ToKey 0, shaA @ [1])]
   \<and> lDb db1 (shaBlkToKey shaA) = Inr (PutUint64 0)
   \<and> lDb db1 (int64ToKey 0) = Inr (shaA @ [1])
   \<and> list_all wf_op ops_chain
   \<and> lDb (run emptyDb ops_chain) (shaBlkToKey shaB) = Inr (PutUint64 1)
   \<and> (\<exists>g w. binary_Read (PutUint64 1) = Some g \<and> lDb (run emptyDb ops_chain) (int64ToKey g) = Inr w)"
proof -
  have i: "insertBlockData emptyDb shaA zeroHash [1] =
      (fst (insertBlockData emptyDb shaA zeroHash [1]), Inr 0)"
    by (simp add: genesis_insert)
  have b: "lDb (run emptyDb ops_chain) (shaBlkToKey shaB) = Inr (PutUint64 1)"
    by (simp add: db2_def [symmetric] db2_eq shaBlkToKey_def)
  have e: "lbatch emptyDb = []"
    by (simp add: emptyDb_def)
  have 1: "lbatch (fst (insertBlockData emptyDb shaA zeroHash [1])) =
        lbatch emptyDb @ [(shaBlkToKey shaA, PutUint64 0), (int64ToKey 0, shaA @ [1])]
      \<and> lDb (commit (fst (insertBlockData emptyDb shaA zeroHash [1]))) (shaBlkToKey shaA) = Inr (PutUint64 0)
      \<and> lDb (commit (fst (insertBlockData emptyDb shaA zeroHash [1]))) (int64ToKey 0) = Inr (shaA @ [1])"
    using C4_pairing [of emptyDb shaA zeroHash "[1]" "fst (insertBlockData emptyDb shaA zeroHash [1])" 0 ops_chain] i
    by blast
  have 2: "\<exists>g w. binary_Read (PutUint64 1) = Some g \<and> lDb (run emptyDb ops_chain) (int64ToKey g) = Inr w"
    using C4_pairing [of emptyDb shaA zeroHash "[1]" "fst (insertBlockData emptyDb shaA zeroHash [1])" 0 ops_chain]
      wf_ops_chain b
    by blast
  show ?thesis
    using i 1 2 b e wf_ops_chain by (simp add: db1_def)
qed

text \<open>
  Read as "the height-index entry of the same block": after the fork \<open>ops_fork\<close> the
  hash-index entry of \<open>shaB\<close> still maps to height 1, while the height-index entry of
  height 1 holds the hash \<open>shaC\<close>.
\<close>

theorem C4_counterexample:
  "list_all wf_op ops_fork
   \<and> lDb (run emptyDb ops_fork) (shaBlkToKey shaB) = Inr (PutUint64 1)
   \<and> lDb (run emptyDb ops_fork) (int64ToKey 1) = Inr (shaC @ [3])
   \<and> take 32 (shaC @ [3]) \<noteq> shaB"
proof -
  have w: "list_all wf_op ops_fork"
    by (simp add: ops_fork_def ops_chain_def HashSize_def sha_lengths)
  have r: "run emptyDb ops_fork = db3"
    by (simp add: db3_def)
  have "lDb db3 (shaBlkToKey shaB) = Inr (PutUint64 1)"
    "lDb db3 (int64ToKey 1) = Inr (shaC @ [3])"
    "take 32 (shaC @ [3]) \<noteq> shaB"
    by (simp_all add: db3_eq shaBlkToKey_def int64ToKey_def sha_distinct sha_lengths)
  with w r show ?thesis by simp
qed

subsection \<open>The tip cache\<close>

lemma tip_inv_mono: "tip_inv n db t \<Longrightarrow> n \<le> m \<Longrightarrow> tip_inv m db t"
  by (auto simp: tip_inv_def split: option.splits)

lemma step_failed_insert:
  "snd (insertBlockData db sha prevSha buf) = Inl e \<Longrightarrow> step db (OpInsert sha prevSha buf) = db"
  by (simp add: insertBlockData_error_unchanged)

lemma inserted_None_step:
  assumes "inserted db op = None"
  shows "lastBlkSha (step db op) = lastBlkSha db \<and> lastBlkIdx (step db op) = lastBlkIdx db
       \<and> lastBlkShaCached (step db op) = lastBlkShaCached db \<and> nextBlock (step db op) = nextBlock db"
proof (cases op)
  case (OpInsert sha prevSha buf)
  with assms obtain e where "snd (insertBlockData db sha prevSha buf) = Inl e"
    by (auto simp: inserted_def split: sum.splits)
  then show ?thesis using OpInsert by (simp add: insertBlockData_error_unchanged)
next
  case OpCommit
  then show ?thesis by (simp add: commit_def)
qed simp_all

lemma tip_inv_step:
  assumes "db_inv n db" and "tip_inv n db t"
  shows "tip_inv (Suc n) (step db op) (case inserted db op of None \<Rightarrow> t | Some r \<Rightarrow> Some r)"
proof (cases "inserted db op")
  case None
  from inserted_None_step [OF None] assms(2) have "tip_inv n (step db op) t"
    by (auto simp: tip_inv_def split: option.splits)
  with None show ?thesis by (simp add: tip_inv_mono)
next
  case (Some r)
  then obtain sha prevSha buf h where op: "op = OpInsert sha prevSha buf"
    and s: "snd (insertBlockData db sha prevSha buf) = Inr h" and r: "r = (sha, h)"
    by (auto simp: inserted_def split: op.splits sum.splits)
  from s obtain db' where i: "insertBlockData db sha prevSha buf = (db', Inr h)"
    by (cases "insertBlockData db sha prevSha buf") auto
  from assms(1) have "store_inv n (lDb db)" by (simp add: db_inv_def)
  from insert_height_bound [OF this i] have hb: "unat h < Suc n" .
  have "lastBlkSha db' = sha \<and> lastBlkIdx db' = h"
    by (simp add: insertBlockData_Inr [OF i])
  moreover have "step db op = db'"
    using i op by simp
  ultimately show ?thesis
    using hb Some r by (simp add: tip_inv_def)
qed

lemma tip_inv_run:
  "db_inv n db \<Longrightarrow> tip_inv n db t \<Longrightarrow> list_all wf_op ops \<Longrightarrow>
   tip_inv (n + length ops) (run db ops) (last_inserted db ops t)"
proof (induction ops arbitrary: n db t)
  case Nil
  then show ?case by (simp add: run_def)
next
  case (Cons op ops)
  from Cons.prems have d: "db_inv (Suc n) (step db op)" by (simp add: db_inv_step)
  have t: "tip_inv (Suc n) (step db op) (case inserted db op of None \<Rightarrow> t | Some r \<Rightarrow> Some r)"
    by (rule tip_inv_step [OF Cons.prems(1,2)])
  from Cons.IH [OF d t] Cons.prems(3) show ?case by (simp add: run_def)
qed

lemma tip_inv_empty: "tip_inv 0 emptyDb None"
  by (simp add: tip_inv_def emptyDb_def)

lemma unat_minus_one_64: "unat (- 1 :: int64) = 2 ^ 64 - 1"
  by (simp add: unsigned_minus_1_eq_mask mask_eq_exp_minus_1)

text \<open>
  C7. In the empty store \<open>NewestSha\<close> returns the zero hash and height \<open>-1\<close> with no
  error. After any sequence of operations from the empty store (inserts, successful or
  not, commits and fetches; fewer than \<open>2^64\<close> of them, so that no height has wrapped
  around to the sentinel \<open>-1\<close>) it returns the hash of the most recent successful insert
  and the height that insert returned. The tip cache is written only by a successful
  insert: every other operation leaves its four fields as they were.
\<close>

theorem C7_newest_tip:
  "NewestSha emptyDb = Inr (zeroHash, - 1)
   \<and> (list_all wf_op ops \<and> length ops < 2 ^ 64
      \<longrightarrow> NewestSha (run emptyDb ops) =
          Inr (case last_inserted emptyDb ops None of None \<Rightarrow> (zeroHash, - 1) | Some r \<Rightarrow> r))
   \<and> (inserted db op = None
      \<longrightarrow> lastBlkSha (step db op) = lastBlkSha db \<and> lastBlkIdx (step db op) = lastBlkIdx db
        \<and> lastBlkShaCached (step db op) = lastBlkShaCached db
        \<and> nextBlock (step db op) = nextBlock db)"
proof (intro conjI impI)
  show "NewestSha emptyDb = Inr (zeroHash, - 1)"
    by (simp add: NewestSha_def emptyDb_def)
next
  assume a: "list_all wf_op ops \<and> length ops < 2 ^ 64"
  then have t: "tip_inv (length ops) (run emptyDb ops) (last_inserted emptyDb ops None)"
    using tip_inv_run [OF db_inv_empty tip_inv_empty, of ops] by simp
  show "NewestSha (run emptyDb ops) =
      Inr (case last_inserted emptyDb ops None of None \<Rightarrow> (zeroHash, - 1) | Some r \<Rightarrow> r)"
  proof (cases "last_inserted emptyDb ops None")
    case None
    with t show ?thesis by (simp add: tip_inv_def NewestSha_def)
  next
    case (Some r)
    with t have f: "lastBlkSha (run emptyDb ops) = fst r" "lastBlkIdx (run emptyDb ops) = snd r"
      and b: "unat (snd r) < length ops"
      by (simp_all add: tip_inv_def)
    from b a have "unat (snd r) < 2 ^ 64 - 1" by simp
    then have "snd r \<noteq> - 1" using unat_minus_one_64 by auto
    with f Some show ?thesis by (simp add: NewestSha_def)
  qed
next
  assume "inserted db op = None"
  then show "lastBlkSha (step db op) = lastBlkSha db" "lastBlkIdx (step db op) = lastBlkIdx db"
    "lastBlkShaCached (step db op) = lastBlkShaCached db" "nextBlock (step db op) = nextBlock db"
    using inserted_None_step [of db op] by simp_all
qed

lemma inserted_chain:
  "inserted emptyDb (OpInsert shaA zeroHash [1]) = Some (shaA, 0)"
  "inserted db1 (OpInsert shaB shaA [2]) = Some (shaB, 1)"
  "inserted db1 (OpInsert shaB shaC [2]) = None"
proof -
  show "inserted emptyDb (OpInsert shaA zeroHash [1]) = Some (shaA, 0)"
    by (simp add: inserted_def genesis_insert)
  have g: "getBlkLoc db1 shaA = Inr 0"
    by (simp add: getBlkLoc_def shaBlkToKey_def db1_eq binary_Read_PutUint64)
  show "inserted db1 (OpInsert shaB shaA [2]) = Some (shaB, 1)"
    by (simp add: inserted_def insertBlockData_def g insert_at_eq)
  have n: "getBlkLoc db1 shaC = Inl (StoreErr ErrNotFound)"
    by (simp add: getBlkLoc_cases db1_eq sha_distinct)
  have z: "nextBlock db1 \<noteq> 0"
    by (simp add: db1_eq)
  show "inserted db1 (OpInsert shaB shaC [2]) = None"
    by (simp add: inserted_def insertBlockData_def n z)
qed

theorem C7_newest_tip_witness:
  "list_all wf_op ops_chain \<and> length ops_chain < 2 ^ 64
   \<and> last_inserted emptyDb ops_chain None = Some (shaB, 1)
   \<and> NewestSha (run emptyDb ops_chain) = Inr (shaB, 1)
   \<and> inserted db1 (OpInsert shaB shaC [2]) = None
   \<and> lastBlkSha (step db1 (OpInsert shaB shaC [2])) = lastBlkSha db1
   \<and> lastBlkIdx (step db1 (OpInsert shaB shaC [2])) = lastBlkIdx db1"
proof -
  have l: "length ops_chain < 2 ^ 64"
    by (simp add: ops_chain_def)
  have s1: "step emptyDb (OpInsert shaA zeroHash [1]) = fst (insertBlockData emptyDb shaA zeroHash [1])"
    by simp
  have c1: "step (fst (insertBlockData emptyDb shaA zeroHash [1])) OpCommit = db1"
    by (simp add: db1_def)
  have i0: "inserted (fst (insertBlockData emptyDb shaA zeroHash [1])) OpCommit = None"
    by (simp add: inserted_def)
  have i2: "inserted (step db1 (OpInsert shaB shaA [2])) OpCommit = None"
    by (simp add: inserted_def)
  have li: "last_inserted emptyDb ops_chain None = Some (shaB, 1)"
    unfolding ops_chain_def last_inserted.simps s1 c1 inserted_chain i0 i2 by simp
  have n: "NewestSha (run emptyDb ops_chain) =
      Inr (case last_inserted emptyDb ops_chain None of None \<Rightarrow> (zeroHash, - 1) | Some r \<Rightarrow> r)"
    using C7_newest_tip [of ops_chain db1 "OpInsert shaB shaC [2]"] wf_ops_chain l by blast
  have u: "lastBlkSha (step db1 (OpInsert shaB shaC [2])) = lastBlkSha db1
      \<and> lastBlkIdx (step db1 (OpInsert shaB shaC [2])) = lastBlkIdx db1"
    using C7_newest_tip [of ops_chain db1 "OpInsert shaB shaC [2]"] inserted_chain(3) by blast
  show ?thesis
    using wf_ops_chain l li n u inserted_chain(3) by simp
qed

subsection \<open>Append-only\<close>

lemma foldl_apply_put_present:
  "s k = Inr v \<Longrightarrow> \<exists>v'. foldl apply_put s xs k = Inr v'"
proof (induction xs arbitrary: s v)
  case Nil
  then show ?case by simp
next
  case (Cons x xs)
  have "\<exists>u. apply_put s x k = Inr u"
    using Cons.prems by (simp add: apply_put_def)
  then obtain u where "apply_put s x k = Inr u" ..
  then show ?case using Cons.IH [of "apply_put s x" u] by simp
qed

lemma foldl_apply_put_other:
  "k \<notin> fst ` set xs \<Longrightarrow> foldl apply_put s xs k = s k"
proof (induction xs arbitrary: s)
  case Nil
  then show ?case by simp
next
  case (Cons x xs)
  then have "foldl apply_put (apply_put s x) xs k = apply_put s x k" by simp
  also have "\<dots> = s k" using Cons.prems by (simp add: apply_put_def)
  finally show ?case by simp
qed

lemma step_lDb_not_commit: "op \<noteq> OpCommit \<Longrightarrow> lDb (step db op) = lDb db"
proof (cases op)
  case (OpInsert sha prevSha buf)
  show ?thesis
  proof (cases "insertBlockData db sha prevSha buf")
    case (Pair db' r)
    show ?thesis
    proof (cases r)
      case (Inl e)
      with Pair OpInsert insertBlockData_error_unchanged [of db sha prevSha buf e]
      show ?thesis by simp
    next
      case (Inr h)
      with Pair have "insertBlockData db sha prevSha buf = (db', Inr h)" by simp
      from insertBlockData_Inr [OF this] Pair OpInsert show ?thesis by simp
    qed
  qed
qed simp_all

lemma step_present: "lDb db k = Inr v \<Longrightarrow> \<exists>v'. lDb (step db op) k = Inr v'"
proof (cases "op = OpCommit")
  case True
  assume "lDb db k = Inr v"
  then show ?thesis
    using foldl_apply_put_present [of "lDb db" k v "lbatch db"] True
    by (simp add: commit_def)
next
  case False
  assume "lDb db k = Inr v"
  with step_lDb_not_commit [OF False, of db] show ?thesis by simp
qed

lemma run_present: "lDb db k = Inr v \<Longrightarrow> \<exists>v'. lDb (run db ops) k = Inr v'"
proof (induction ops arbitrary: db v)
  case Nil
  then show ?case by (simp add: run_def)
next
  case (Cons op ops)
  from step_present [OF Cons.prems, of op] obtain u where "lDb (step db op) k = Inr u" ..
  from Cons.IH [OF this] show ?case by (simp add: run_def)
qed

lemma step_not_insert: "\<not> is_insert op \<Longrightarrow> op \<noteq> OpCommit \<Longrightarrow> step db op = db"
  by (cases op) simp_all

lemma step_batch_not_insert: "\<not> is_insert op \<Longrightarrow> set (lbatch (step db op)) \<subseteq> set (lbatch db)"
  by (cases op) (simp_all add: commit_def)

lemma run_no_insert:
  "lbatch db = [] \<Longrightarrow> list_all (\<lambda>op. \<not> is_insert op) ops \<Longrightarrow>
   lDb (run db ops) = lDb db \<and> lbatch (run db ops) = []"
proof (induction ops arbitrary: db)
  case Nil
  then show ?case by (simp add: run_def)
next
  case (Cons op ops)
  from Cons.prems have n: "\<not> is_insert op" by simp
  have "lDb (step db op) = lDb db \<and> lbatch (step db op) = []"
    using n Cons.prems(1) by (cases op) (simp_all add: commit_def)
  with Cons.IH [of "step db op"] Cons.prems(2) show ?case by (simp add: run_def)
qed

text \<open>
  C5 (amended). For every sequence of operations of this layer and commits: no operation
  deletes an entry (a key that has an entry keeps one); the committed store changes only
  at a commit, and there only under keys staged in the pending batch; writes are staged
  only by insert, which stages its own hash key and the height key it assigns; the fetch
  operations and a failed insert leave the handle as it was; and from the empty store a
  sequence without inserts creates no entry. An insert does overwrite the entry that is
  already stored under its hash key or under the height it assigns.
\<close>

theorem C5_append_only:
  "(\<forall>v. lDb db k = Inr v \<longrightarrow> (\<exists>v'. lDb (run db ops) k = Inr v'))
   \<and> (op \<noteq> OpCommit \<longrightarrow> lDb (step db op) = lDb db)
   \<and> (k \<notin> fst ` set (lbatch db) \<longrightarrow> lDb (commit db) k = lDb db k)
   \<and> (\<not> is_insert op \<longrightarrow> set (lbatch (step db op)) \<subseteq> set (lbatch db))
   \<and> (insertBlockData db sha prevSha buf = (db', Inr h)
      \<longrightarrow> lbatch db' = lbatch db @ [(shaBlkToKey sha, PutUint64 h), (int64ToKey h, sha @ buf)])
   \<and> (\<not> is_insert op \<and> op \<noteq> OpCommit \<longrightarrow> step db op = db)
   \<and> (\<forall>e. snd (insertBlockData db sha prevSha buf) = Inl e
      \<longrightarrow> step db (OpInsert sha prevSha buf) = db)
   \<and> (list_all (\<lambda>op. \<not> is_insert op) ops \<longrightarrow> lDb (run emptyDb ops) = lDb emptyDb)"
proof (intro conjI impI allI)
  fix v
  assume "lDb db k = Inr v"
  then show "\<exists>v'. lDb (run db ops) k = Inr v'" by (rule run_present)
next
  assume "op \<noteq> OpCommit"
  then show "lDb (step db op) = lDb db" by (rule step_lDb_not_commit)
next
  assume "k \<notin> fst ` set (lbatch db)"
  then show "lDb (commit db) k = lDb db k"
    by (simp add: commit_def foldl_apply_put_other)
next
  assume "\<not> is_insert op"
  then show "set (lbatch (step db op)) \<subseteq> set (lbatch db)" by (rule step_batch_not_insert)
next
  assume "insertBlockData db sha prevSha buf = (db', Inr h)"
  from insertBlockData_Inr [OF this]
  show "lbatch db' = lbatch db @ [(shaBlkToKey sha, PutUint64 h), (int64ToKey h, sha @ buf)]"
    by (simp add: shaBlkToKey_def int64ToKey_def)
next
  assume "\<not> is_insert op \<and> op \<noteq> OpCommit"
  then show "step db op = db" by (simp add: step_not_insert)
next
  fix e
  assume "snd (insertBlockData db sha prevSha buf) = Inl e"
  then show "step db (OpInsert sha prevSha buf) = db" by (rule step_failed_insert)
next
  assume "list_all (\<lambda>op. \<not> is_insert op) ops"
  then show "lDb (run emptyDb ops) = lDb emptyDb"
    using run_no_insert [of emptyDb ops] by (simp add: emptyDb_def)
qed

theorem C5_append_only_witness:
  "lDb db1 (int64ToKey 0) = Inr (shaA @ [1])
   \<and> (\<exists>v'. lDb (run db1 [OpInsert shaB shaA [2], OpCommit]) (int64ToKey 0) = Inr v')
   \<and> OpFetchSha shaA \<noteq> OpCommit \<and> \<not> is_insert (OpFetchSha shaA)
   \<and> step db1 (OpFetchSha shaA) = db1
   \<and> list_all (\<lambda>op. \<not> is_insert op) [OpCommit, OpNewestSha]
   \<and> lDb (run emptyDb [OpCommit, OpNewestSha]) = lDb emptyDb"
proof -
  have a: "lDb db1 (int64ToKey 0) = Inr (shaA @ [1])"
    by (simp add: db1_eq int64ToKey_def)
  have n: "\<not> is_insert (OpFetchSha shaA) \<and> OpFetchSha shaA \<noteq> OpCommit"
    by simp
  have l: "list_all (\<lambda>op. \<not> is_insert op) [OpCommit, OpNewestSha]"
    by simp
  have 1: "\<exists>v'. lDb (run db1 [OpInsert shaB shaA [2], OpCommit]) (int64ToKey 0) = Inr v'"
    using C5_append_only [of db1 "int64ToKey 0" "[OpInsert shaB shaA [2], OpCommit]" OpCommit
        shaA shaA "[]" db1 0] a by blast
  have 2: "step db1 (OpFetchSha shaA) = db1"
    using C5_append_only [of db1 "int64ToKey 0" "[OpCommit, OpNewestSha]" "OpFetchSha shaA"
        shaA shaA "[]" db1 0] n by blast
  have 3: "lDb (run emptyDb [OpCommit, OpNewestSha]) = lDb emptyDb"
    using C5_append_only [of db1 "int64ToKey 0" "[OpCommit, OpNewestSha]" "OpFetchSha shaA"
        shaA shaA "[]" db1 0] l by blast
  show ?thesis using a n l 1 2 3 by simp
qed

text \<open>
  Existing entries are mutated: the fork \<open>ops_fork\<close> continues \<open>ops_chain\<close> with a block
  that names the genesis block as its predecessor, and the height-index entry of height 1
  changes from the block \<open>shaB\<close> to the block \<open>shaC\<close>.
\<close>

theorem C5_counterexample:
  "ops_fork = ops_chain @ [OpInsert shaC shaA [3], OpCommit]
   \<and> lDb (run emptyDb ops_chain) (int64ToKey 1) = Inr (shaB @ [2])
   \<and> lDb (run emptyDb ops_fork) (int64ToKey 1) = Inr (shaC @ [3])
   \<and> shaB @ [2] \<noteq> shaC @ [3]"
proof -
  have "lDb db2 (int64ToKey 1) = Inr (shaB @ [2])"
    by (simp add: db2_eq int64ToKey_def)
  moreover have "lDb db3 (int64ToKey 1) = Inr (shaC @ [3])"
    by (simp add: db3_eq int64ToKey_def)
  moreover have "shaB @ [2] \<noteq> shaC @ [3]"
    by simp
  ultimately show ?thesis
    by (simp add: db2_def db3_def ops_fork_def)
qed

end
